theory Spec2Isabelle
  imports Main "HOL-Library.Char_ord" "HOL-Library.List_Lexorder"
begin

section \<open>Strings and paths\<close>

text \<open>
  A Python \<open>str\<close> is modelled as a \<open>string\<close> whose characters are the code points below
  256. The helpers below are the string and \<open>os.path\<close> operations that
  \<open>organizer_gui.py\<close> calls, on a POSIX system.
\<close>

definition nl :: string where
  "nl = [CHR 0x0A]"

definition isspace :: "char \<Rightarrow> bool" where
  \<comment> \<open>\<open>str.isspace\<close> on one code point below 256\<close>
  "isspace c =
     (let n = (of_char c :: nat)
      in (9 \<le> n \<and> n \<le> 13) \<or> (28 \<le> n \<and> n \<le> 32) \<or> n = 133 \<or> n = 160)"

definition strip :: "string \<Rightarrow> string" where
  \<comment> \<open>\<open>s.strip()\<close>\<close>
  "strip s = rev (dropWhile isspace (rev (dropWhile isspace s)))"

definition lower_char :: "char \<Rightarrow> char" where
  "lower_char c =
     (let n = (of_char c :: nat)
      in if (65 \<le> n \<and> n \<le> 90) \<or> (192 \<le> n \<and> n \<le> 222 \<and> n \<noteq> 215)
         then char_of (n + 32) else c)"

definition lower :: "string \<Rightarrow> string" where
  \<comment> \<open>\<open>s.lower()\<close>\<close>
  "lower s = map lower_char s"

definition endswith :: "string \<Rightarrow> string \<Rightarrow> bool" where
  \<comment> \<open>\<open>s.endswith(suf)\<close>\<close>
  "endswith s suf = (take (length suf) (rev s) = rev suf)"

definition path_join :: "string \<Rightarrow> string \<Rightarrow> string" where
  \<comment> \<open>\<open>os.path.join(a, b)\<close>\<close>
  "path_join a b =
     (if b \<noteq> [] \<and> hd b = CHR ''/'' then b
      else if a = [] \<or> last a = CHR ''/'' then a @ b
      else a @ ''/'' @ b)"

definition basename :: "string \<Rightarrow> string" where
  \<comment> \<open>\<open>os.path.basename(p)\<close>: what follows the last slash\<close>
  "basename p = rev (takeWhile (\<lambda>c. c \<noteq> CHR ''/'') (rev p))"

fun split_slash :: "string \<Rightarrow> string list" where
  "split_slash [] = [ [] ]"
| "split_slash (c # cs) =
     (if c = CHR ''/'' then [] # split_slash cs
      else (case split_slash cs of
              [] \<Rightarrow> [ [c] ]
            | w # ws \<Rightarrow> (c # w) # ws))"

definition components :: "string \<Rightarrow> string list" where
  \<comment> \<open>the names a path is resolved through; empty components (a leading, doubled or
      trailing slash) do not count\<close>
  "components p = filter (\<lambda>w. w \<noteq> []) (split_slash p)"

section \<open>The process runner\<close>

text \<open>
  What \<open>subprocess.Popen\<close> and the child process do is the environment of
  \<open>run_process\<close>: either \<open>Popen\<close> raises \<open>FileNotFoundError\<close>, or it raises another
  exception (\<open>PermissionError\<close> for a script that is not executable, \<open>OSError\<close> for a bad
  format), or the process starts, writes lines, and the stream then ends with an exit code
  or with an exception while reading, closing or waiting. Exceptions carry their message.
\<close>

datatype stream_end = Exits int | ReadFails string

datatype behaviour =
    PopenFileNotFound string
  | PopenRaises string
  | Runs "string list" stream_end

text \<open>
  The items of the \<open>queue.Queue\<close>: an output string, the \<open>None\<close> sentinel, and the tuple
  \<open>("__RC__", rc)\<close>. The queue is the list of its items, oldest first.
\<close>

datatype item = Chunk string | Sentinel | RC int

datatype 'a outcome = Return 'a | Raise string

fun put_lines :: "string list \<Rightarrow> item list \<Rightarrow> item list" where
  \<comment> \<open>\<open>for line in proc.stdout: out_queue.put(line)\<close>\<close>
  "put_lines [] q = q"
| "put_lines (line # rest) q = put_lines rest (q @ [Chunk line])"

fun run_process :: "string list \<Rightarrow> behaviour \<Rightarrow> item list \<Rightarrow> item list \<times> int outcome" where
  "run_process cmd_list (PopenFileNotFound e) q =
     (case cmd_list of
        [] \<Rightarrow> (q, Raise ''IndexError'')
      | c # _ \<Rightarrow> (q @ [Chunk (''[ERROR] Script not found: '' @ c @ nl @ e @ nl)], Return 127))"
| "run_process cmd_list (PopenRaises e) q = (q, Raise e)"
| "run_process cmd_list (Runs lines (Exits rc)) q = (put_lines lines q, Return rc)"
| "run_process cmd_list (Runs lines (ReadFails e)) q =
     (put_lines lines q @ [Chunk (''[ERROR] Running command failed: '' @ e @ nl)], Return 1)"

datatype thread_end = Finished | Died string

definition worker :: "string list \<Rightarrow> behaviour \<Rightarrow> item list \<Rightarrow> item list \<times> thread_end" where
  \<comment> \<open>the thread body in \<open>_background_run_and_stream\<close>; an exception out of
      \<open>run_process\<close> ends the thread before either \<open>put\<close>\<close>
  "worker cmd beh q =
     (case run_process cmd beh q of
        (q', Return rc) \<Rightarrow> (q' @ [Sentinel, RC rc], Finished)
      | (q', Raise e) \<Rightarrow> (q', Died e))"

section \<open>The file system\<close>

text \<open>
  The program sees the file system through \<open>os.path.isdir\<close>, \<open>os.path.isfile\<close>,
  \<open>os.listdir\<close>, \<open>os.makedirs\<close> and \<open>open\<close>. It is modelled as a tree: a directory holds
  named nodes, a file holds its text, and \<open>Locked\<close> is a regular file that cannot be opened
  or decoded. Files hold single-byte characters and no carriage returns, so an offset of
  \<open>seek\<close> and \<open>tell\<close> is a number of characters. Paths are resolved from the root; \<open>.\<close>
  and \<open>..\<close> are names like any other. Permissions on directories are not modelled: a
  directory can be made wherever no file is in the way.
\<close>

datatype node = File string | Locked | Dir "(string \<times> node) list"

fun lookup :: "node \<Rightarrow> string list \<Rightarrow> node option" where
  "lookup n [] = Some n"
| "lookup (Dir es) (c # cs) =
     (case map_of es c of None \<Rightarrow> None | Some n \<Rightarrow> lookup n cs)"
| "lookup (File v) (c # cs) = None"
| "lookup Locked (c # cs) = None"

definition isdir :: "node \<Rightarrow> string \<Rightarrow> bool" where
  "isdir fs p =
     (p \<noteq> [] \<and> (case lookup fs (components p) of Some (Dir es) \<Rightarrow> True | _ \<Rightarrow> False))"

definition isfile :: "node \<Rightarrow> string \<Rightarrow> bool" where
  "isfile fs p =
     (p \<noteq> [] \<and>
      (case lookup fs (components p) of
         Some (File v) \<Rightarrow> True
       | Some Locked \<Rightarrow> True
       | _ \<Rightarrow> False))"

definition listdir :: "node \<Rightarrow> string \<Rightarrow> string list" where
  \<comment> \<open>the names in a directory, in the order the system gives them\<close>
  "listdir fs p =
     (case lookup fs (components p) of Some (Dir es) \<Rightarrow> remdups (map fst es) | _ \<Rightarrow> [])"

definition open_read :: "node \<Rightarrow> string \<Rightarrow> nat \<Rightarrow> (string \<times> nat) option" where
  \<comment> \<open>\<open>open(p, 'r')\<close>, \<open>fh.seek(pos)\<close>, \<open>fh.read()\<close>, \<open>fh.tell()\<close>: the text from \<open>pos\<close> on and
      the position after it; \<open>None\<close> when any of them raises. A position beyond the end
      stays where it is.\<close>
  "open_read fs p pos =
     (case lookup fs (components p) of
        Some (File v) \<Rightarrow> Some (drop pos v, max pos (length v))
      | _ \<Rightarrow> None)"

fun mkdirs :: "node \<Rightarrow> string list \<Rightarrow> string + node" where
  "mkdirs (Dir es) [] = Inr (Dir es)"
| "mkdirs (File v) [] = Inl ''FileExistsError''"
| "mkdirs Locked [] = Inl ''FileExistsError''"
| "mkdirs (Dir es) (c # cs) =
     (case map_of es c of
        None \<Rightarrow>
          (case mkdirs (Dir []) cs of
             Inl e \<Rightarrow> Inl e
           | Inr n \<Rightarrow> Inr (Dir (es @ [(c, n)])))
      | Some n \<Rightarrow>
          (case mkdirs n cs of
             Inl e \<Rightarrow> Inl e
           | Inr n' \<Rightarrow> Inr (Dir (map (\<lambda>(k, m). if k = c then (k, n') else (k, m)) es))))"
| "mkdirs (File v) (c # cs) = Inl ''NotADirectoryError''"
| "mkdirs Locked (c # cs) = Inl ''NotADirectoryError''"

definition makedirs :: "node \<Rightarrow> string \<Rightarrow> string + node" where
  \<comment> \<open>\<open>os.makedirs(p, exist_ok=True)\<close>: the new file system, or the exception raised\<close>
  "makedirs fs p = (if p = [] then Inl ''FileNotFoundError'' else mkdirs fs (components p))"

section \<open>The application state\<close>

datatype dialog =
    ShowInfo string string
  | ShowWarning string string
  | ShowError string string

text \<open>
  The fields of \<open>OrganizerApp\<close> that the modelled methods read or write: the entry
  variables, the text of the three text widgets, the listbox, the buttons, status lines and
  progress bars, the message boxes shown so far (oldest first), the state of the log
  tailer, and the number of pending \<open>self.after(LOG_POLL_MS, self._do_tail)\<close> timers.
\<close>

record app =
  src_var :: string
  out_var :: string
  back_dir_var :: string
  log_dir_var :: string
  text_out :: string
  text_verify :: string
  text_logs :: string
  backups_list :: "string list"
  run_btn_enabled :: bool
  verify_btn_enabled :: bool
  status_var :: string
  integrity_status :: string
  progress_running :: bool
  integrity_progress_running :: bool
  dialogs :: "dialog list"
  live_logs_running :: bool
  live_log_paths :: "string list"
  tail_positions :: "string \<rightharpoonup> nat"
  tail_timers :: nat

definition init_app :: app where
  \<comment> \<open>the state after \<open>__init__\<close>\<close>
  "init_app =
     \<lparr>src_var = [], out_var = [], back_dir_var = [], log_dir_var = [],
      text_out = [], text_verify = [], text_logs = [], backups_list = [],
      run_btn_enabled = True, verify_btn_enabled = True,
      status_var = ''Idle'', integrity_status = ''Idle'',
      progress_running = False, integrity_progress_running = False,
      dialogs = [], live_logs_running = False, live_log_paths = [],
      tail_positions = Map.empty, tail_timers = 0\<rparr>"

datatype widget = TextOut | TextVerify | TextLogs

fun widget_text :: "widget \<Rightarrow> app \<Rightarrow> string" where
  "widget_text TextOut a = text_out a"
| "widget_text TextVerify a = text_verify a"
| "widget_text TextLogs a = text_logs a"

fun insert_end :: "widget \<Rightarrow> string \<Rightarrow> app \<Rightarrow> app" where
  \<comment> \<open>\<open>text_widget.insert(tk.END, t)\<close>\<close>
  "insert_end TextOut t a = a\<lparr>text_out := text_out a @ t\<rparr>"
| "insert_end TextVerify t a = a\<lparr>text_verify := text_verify a @ t\<rparr>"
| "insert_end TextLogs t a = a\<lparr>text_logs := text_logs a @ t\<rparr>"

definition clear_output_text :: "app \<Rightarrow> app" where
  \<comment> \<open>\<open>self.text_out.delete("1.0", tk.END)\<close>\<close>
  "clear_output_text a = a\<lparr>text_out := []\<rparr>"

subsection \<open>Completion callbacks\<close>

function str_nat :: "nat \<Rightarrow> string" where
  "str_nat n =
     (if n < 10 then [char_of (48 + n)]
      else str_nat (n div 10) @ [char_of (48 + n mod 10)])"
  by pat_completeness auto
termination
  by (relation "measure (\<lambda>n. n)") auto

definition str_int :: "int \<Rightarrow> string" where
  \<comment> \<open>\<open>str(i)\<close>\<close>
  "str_int i = (if i < 0 then ''-'' @ str_nat (nat (- i)) else str_nat (nat i))"

definition organizer_complete :: "int \<Rightarrow> app \<Rightarrow> app" where
  "organizer_complete returncode a =
     (let a1 = a\<lparr>progress_running := False, run_btn_enabled := True\<rparr>
      in if returncode = 0
         then a1\<lparr>status_var := ''Organizer completed successfully'',
                 dialogs := dialogs a1 @ [ShowInfo ''Done'' ''Organizer finished successfully.'']\<rparr>
         else a1\<lparr>status_var := ''Organizer finished with errors'',
                 dialogs := dialogs a1 @
                   [ShowWarning ''Completed with errors''
                      (''Organizer returned code '' @ str_int returncode @ ''. Check logs.'')]\<rparr>)"

definition integrity_complete :: "int \<Rightarrow> app \<Rightarrow> app" where
  "integrity_complete returncode a =
     (let a1 = a\<lparr>integrity_progress_running := False, verify_btn_enabled := True\<rparr>
      in if returncode = 0
         then a1\<lparr>integrity_status := ''Integrity OK'',
                 dialogs := dialogs a1 @
                   [ShowInfo ''Integrity'' ''All files match their checksums.'']\<rparr>
         else a1\<lparr>integrity_status := ''Integrity FAILED'',
                 dialogs := dialogs a1 @
                   [ShowWarning ''Integrity'' ''Some files failed verification. Check logs.'']\<rparr>)"

datatype callback = OrganizerComplete | IntegrityComplete

fun call :: "callback \<Rightarrow> int \<Rightarrow> app \<Rightarrow> app" where
  "call OrganizerComplete rc a = organizer_complete rc a"
| "call IntegrityComplete rc a = integrity_complete rc a"

section \<open>The polling drain loop\<close>

text \<open>
  One pipeline is one call of \<open>_background_run_and_stream\<close>: its queue \<open>q\<close>, its
  \<open>text_widget\<close> and \<open>on_complete_cb\<close>, and whether \<open>poll\<close> is scheduled with
  \<open>self.after\<close>. The field \<open>events\<close> records what \<open>poll\<close> has called so far, oldest first.
\<close>

datatype event = Inserted string | Completed int

record pipeline =
  queue :: "item list"
  text_widget :: widget
  on_complete_cb :: callback
  scheduled :: bool
  events :: "event list"

fun drain :: "item list \<Rightarrow> pipeline \<times> app \<Rightarrow> pipeline \<times> app" where
  \<comment> \<open>the \<open>while True\<close> loop of \<open>poll\<close> on the items now in the queue: \<open>queue.Empty\<close>
      reschedules, the return code calls back and returns\<close>
  "drain [] (s, a) = (s\<lparr>queue := [], scheduled := True\<rparr>, a)"
| "drain (RC rc # rest) (s, a) =
     (s\<lparr>queue := rest, scheduled := False, events := events s @ [Completed rc]\<rparr>,
      call (on_complete_cb s) rc a)"
| "drain (Sentinel # rest) (s, a) = drain rest (s, a)"
| "drain (Chunk t # rest) (s, a) =
     drain rest (s\<lparr>events := events s @ [Inserted t]\<rparr>, insert_end (text_widget s) t a)"

definition poll :: "pipeline \<times> app \<Rightarrow> pipeline \<times> app" where
  "poll sa = drain (queue (fst sa)) sa"

definition tick :: "pipeline \<times> app \<Rightarrow> item list \<Rightarrow> pipeline \<times> app" where
  \<comment> \<open>the worker has put \<open>batch\<close> since the last tick; then the timer fires, if one is set\<close>
  "tick sa batch =
     (let s' = (fst sa)\<lparr>queue := queue (fst sa) @ batch\<rparr>
      in if scheduled s' then poll (s', snd sa) else (s', snd sa))"

definition run_ticks :: "pipeline \<times> app \<Rightarrow> item list list \<Rightarrow> pipeline \<times> app" where
  "run_ticks sa batches = foldl tick sa batches"

definition start_pipeline :: "widget \<Rightarrow> callback \<Rightarrow> pipeline" where
  \<comment> \<open>\<open>q = queue.Queue()\<close> and the first \<open>self.after(100, poll)\<close>\<close>
  "start_pipeline w cb =
     \<lparr>queue = [], text_widget = w, on_complete_cb = cb, scheduled = True, events = []\<rparr>"

section \<open>Running the organizer\<close>

datatype launch = Rejected | Uncaught string | Started "string list" widget callback

definition run_organizer :: "string \<Rightarrow> node \<Rightarrow> app \<Rightarrow> node \<times> app \<times> launch" where
  \<comment> \<open>\<open>organize_script\<close> is \<open>str(ORGANIZE_SCRIPT)\<close>. \<open>Rejected\<close>: a message box and an early
      return. \<open>Uncaught\<close>: \<open>os.makedirs\<close> raised. \<open>Started\<close>: the thread that runs
      \<open>_background_run_and_stream\<close> on the command was started.\<close>
  "run_organizer organize_script fs a =
     (let src = strip (src_var a); out = strip (out_var a)
      in if src = [] \<or> out = []
         then (fs,
               a\<lparr>dialogs := dialogs a @
                  [ShowWarning ''Missing paths''
                     ''Please select both source and output folders.'']\<rparr>,
               Rejected)
         else if \<not> isdir fs src
         then (fs,
               a\<lparr>dialogs := dialogs a @
                  [ShowError ''Invalid source'' (''Source folder does not exist: '' @ src)]\<rparr>,
               Rejected)
         else (case makedirs fs out of
                 Inl e \<Rightarrow> (fs, a, Uncaught e)
               | Inr fs' \<Rightarrow>
                   (fs',
                    clear_output_text
                      (a\<lparr>run_btn_enabled := False,
                         status_var := ''Running organizer...'',
                         progress_running := True\<rparr>),
                    Started [organize_script, src, out] TextOut OrganizerComplete)))"

section \<open>Listing backups\<close>

fun insert_zips :: "string list \<Rightarrow> string list \<Rightarrow> string list" where
  \<comment> \<open>the \<open>for f in files\<close> loop on the listbox\<close>
  "insert_zips [] box = box"
| "insert_zips (f # files) box =
     insert_zips files (if endswith (lower f) ''.zip'' then box @ [f] else box)"

definition refresh_backups :: "node \<Rightarrow> app \<Rightarrow> app" where
  "refresh_backups fs a =
     (let d = strip (back_dir_var a); a1 = a\<lparr>backups_list := []\<rparr>
      in if d = [] then a1
         else let backups_dir = path_join d ''backups''
              in if \<not> isdir fs backups_dir then a1
                 else a1\<lparr>backups_list :=
                        insert_zips (rev (sort (listdir fs backups_dir))) (backups_list a1)\<rparr>)"

section \<open>The live log tailer\<close>

definition section_of :: "string \<Rightarrow> string \<Rightarrow> string" where
  \<comment> \<open>\<open>f"--- {os.path.basename(p)} ---\n{data}\n"\<close>\<close>
  "section_of p data = ''--- '' @ basename p @ '' ---'' @ nl @ data @ nl"

fun join_nl :: "string list \<Rightarrow> string" where
  \<comment> \<open>\<open>"\n".join(parts)\<close>\<close>
  "join_nl [] = []"
| "join_nl [x] = x"
| "join_nl (x # y # rest) = x @ nl @ join_nl (y # rest)"

definition get0 :: "(string \<rightharpoonup> nat) \<Rightarrow> string \<Rightarrow> nat" where
  \<comment> \<open>\<open>self._tail_positions.get(p, 0)\<close>\<close>
  "get0 pos p = (case pos p of None \<Rightarrow> 0 | Some k \<Rightarrow> k)"

fun tail_files ::
  "node \<Rightarrow> string list \<Rightarrow> string list \<times> (string \<rightharpoonup> nat) \<Rightarrow> string list \<times> (string \<rightharpoonup> nat)" where
  \<comment> \<open>the \<open>for p in self._live_log_paths\<close> loop on \<open>parts\<close> and \<open>self._tail_positions\<close>\<close>
  "tail_files fs [] (parts, pos) = (parts, pos)"
| "tail_files fs (p # ps) (parts, pos) =
     (case open_read fs p (get0 pos p) of
        None \<Rightarrow> tail_files fs ps (parts, pos)
      | Some (data, eof) \<Rightarrow>
          tail_files fs ps
            (if data \<noteq> [] then parts @ [section_of p data] else parts, pos(p \<mapsto> eof)))"

definition do_tail :: "node \<Rightarrow> app \<Rightarrow> app" where
  "do_tail fs a =
     (if \<not> live_logs_running a then a
      else case tail_files fs (live_log_paths a) ([], tail_positions a) of
             (parts, pos) \<Rightarrow>
               (let a1 = a\<lparr>tail_positions := pos\<rparr>;
                    a2 = (if parts \<noteq> [] then a1\<lparr>text_logs := text_logs a1 @ join_nl parts\<rparr>
                          else a1)
                in a2\<lparr>tail_timers := tail_timers a2 + 1\<rparr>))"

definition start_live_logs :: "node \<Rightarrow> app \<Rightarrow> app" where
  "start_live_logs fs a =
     (let d = strip (log_dir_var a)
      in if d = []
         then a\<lparr>dialogs := dialogs a @
                [ShowWarning ''Select directory''
                   ''Select organized directory to read logs from.'']\<rparr>
         else let organizer_log = path_join d ''organizer.log'';
                  integrity_log = path_join d ''integrity_check.log'';
                  paths = (if isfile fs organizer_log then [organizer_log] else []) @
                          (if isfile fs integrity_log then [integrity_log] else [])
              in if paths = []
                 then a\<lparr>dialogs := dialogs a @
                        [ShowWarning ''No logs''
                           ''No log files found in the selected directory.'']\<rparr>
                 else do_tail fs
                        (a\<lparr>live_log_paths := paths,
                           live_logs_running := True,
                           text_logs := [],
                           tail_positions := map_of (map (\<lambda>p. (p, 0)) paths)\<rparr>))"

definition timer_fires :: "node \<Rightarrow> app \<Rightarrow> app" where
  \<comment> \<open>one pending \<open>self.after(LOG_POLL_MS, self._do_tail)\<close> comes due, on the file system
      as it is then\<close>
  "timer_fires fs a =
     (if tail_timers a = 0 then a else do_tail fs (a\<lparr>tail_timers := tail_timers a - 1\<rparr>))"

definition stop_live_logs :: "app \<Rightarrow> app" where
  "stop_live_logs a = a\<lparr>live_logs_running := False\<rparr>"

definition clear_log_view :: "app \<Rightarrow> app" where
  "clear_log_view a = a\<lparr>text_logs := []\<rparr>"

section \<open>Auxiliary definitions\<close>

fun no_rc :: "item list \<Rightarrow> bool" where
  \<comment> \<open>no return code among the items\<close>
  "no_rc [] = True"
| "no_rc (RC rc # rest) = False"
| "no_rc (i # rest) = no_rc rest"

definition tail_part :: "node \<Rightarrow> (string \<rightharpoonup> nat) \<Rightarrow> string \<Rightarrow> string list" where
  \<comment> \<open>what the body of the \<open>for\<close> loop appends to \<open>parts\<close> for the file \<open>q\<close>, from the
      positions \<open>pos\<close>\<close>
  "tail_part fs pos q =
     (case open_read fs q (get0 pos q) of
        None \<Rightarrow> []
      | Some (data, eof) \<Rightarrow> if data \<noteq> [] then [section_of q data] else [])"

definition tail_offset :: "node \<Rightarrow> (string \<rightharpoonup> nat) \<Rightarrow> string \<Rightarrow> nat option" where
  \<comment> \<open>the entry of \<open>q\<close> in \<open>self._tail_positions\<close> after the body of the loop\<close>
  "tail_offset fs pos q =
     (case open_read fs q (get0 pos q) of None \<Rightarrow> pos q | Some (data, eof) \<Rightarrow> Some eof)"

section \<open>Properties of the process runner\<close>

lemma put_lines_append: "put_lines lines q = q @ map Chunk lines"
  by (induction lines arbitrary: q) auto

lemma worker_exits:
  "worker cmd (Runs lines (Exits rc)) q = (q @ map Chunk lines @ [Sentinel, RC rc], Finished)"
  by (simp add: worker_def put_lines_append)

lemma worker_not_found:
  "worker (c # args) (PopenFileNotFound e) q =
     (q @ [Chunk (''[ERROR] Script not found: '' @ c @ nl @ e @ nl), Sentinel, RC 127], Finished)"
  by (simp add: worker_def)

text \<open>
  C6. When reading the output fails after the process has started, the runner puts the
  lines read so far, then one diagnostic chunk, and returns 1; the worker then puts the
  sentinel and the return code 1, and ends normally.
\<close>

theorem stream_failure_reports_code_1:
  "worker cmd (Runs lines (ReadFails e)) q =
     (q @ map Chunk lines @
        [Chunk (''[ERROR] Running command failed: '' @ e @ nl), Sentinel, RC 1],
      Finished)"
  by (simp add: worker_def put_lines_append)

section \<open>Properties of the polling drain loop\<close>

lemma insert_end_nil: "insert_end w [] a = a"
  by (cases w) simp_all

lemma insert_end_append: "insert_end w t2 (insert_end w t1 a) = insert_end w (t1 @ t2) a"
  by (cases w) simp_all

lemma widget_text_call: "widget_text w (call cb rc a) = widget_text w a"
  by (cases cb; cases w) (simp_all add: organizer_complete_def integrity_complete_def Let_def)

lemma widget_text_insert_end: "widget_text w (insert_end w t a) = widget_text w a @ t"
  by (cases w) simp_all

text \<open>What \<open>drain\<close> does is independent of the queue and the flag it starts from.\<close>

lemma drain_depends:
  "text_widget s = text_widget s' \<Longrightarrow> on_complete_cb s = on_complete_cb s' \<Longrightarrow>
   events s = events s' \<Longrightarrow> pipeline.more s = pipeline.more s' \<Longrightarrow>
   drain items (s, a) = drain items (s', a)"
proof (induction items arbitrary: s s' a)
  case Nil
  then show ?case by (simp add: pipeline.equality)
next
  case (Cons i items)
  show ?case
  proof (cases i)
    case (Chunk t)
    have "drain items (s\<lparr>events := events s @ [Inserted t]\<rparr>, insert_end (text_widget s) t a)
        = drain items (s'\<lparr>events := events s' @ [Inserted t]\<rparr>, insert_end (text_widget s) t a)"
      by (rule Cons.IH) (simp_all add: Cons.prems)
    then show ?thesis using Chunk Cons.prems by simp
  next
    case Sentinel
    then show ?thesis using Cons.IH [OF Cons.prems] by simp
  next
    case (RC rc)
    then show ?thesis using Cons.prems by (simp add: pipeline.equality)
  qed
qed

lemma no_rc_append: "no_rc (xs @ ys) = (no_rc xs \<and> no_rc ys)"
  by (induction xs rule: no_rc.induct) simp_all

lemma no_rc_map_Chunk: "no_rc (map Chunk cs)"
  by (induction cs) simp_all

lemma no_rc_butlast: "no_rc xs \<Longrightarrow> no_rc (butlast xs)"
  by (induction xs rule: no_rc.induct) simp_all

lemma drain_append:
  "no_rc b1 \<Longrightarrow> drain (b1 @ b2) (s, a) = drain b2 (drain b1 (s, a))"
proof (induction b1 arbitrary: s a)
  case Nil
  then show ?case
    using drain_depends [of "s\<lparr>queue := [], scheduled := True\<rparr>" s b2 a] by simp
next
  case (Cons i b1)
  then show ?case by (cases i) simp_all
qed

lemma drain_no_rc_idle:
  "no_rc b \<Longrightarrow> scheduled (fst (drain b (s, a))) \<and> queue (fst (drain b (s, a))) = []"
  by (induction b arbitrary: s a rule: no_rc.induct) simp_all

lemma drain_chunks:
  "drain (map Chunk cs @ rest) (s, a) =
     drain rest
       (s\<lparr>events := events s @ map Inserted cs\<rparr>, insert_end (text_widget s) (concat cs) a)"
proof (induction cs arbitrary: s a)
  case Nil
  then show ?case by (simp add: insert_end_nil)
next
  case (Cons c cs)
  then show ?case by (simp add: insert_end_append)
qed

lemma drain_settled:
  "scheduled (fst (drain items (s, a))) \<Longrightarrow> queue (fst (drain items (s, a))) = []"
proof (induction items arbitrary: s a)
  case Nil
  then show ?case by simp
next
  case (Cons i items)
  then show ?case by (cases i) simp_all
qed

lemma tick_nil_drain: "tick (drain items (s, a)) [] = drain items (s, a)"
proof (cases "scheduled (fst (drain items (s, a)))")
  case True
  then have "queue (fst (drain items (s, a))) = []" by (rule drain_settled)
  with True show ?thesis
    by (cases "drain items (s, a)") (simp add: tick_def poll_def pipeline.equality)
next
  case False
  then show ?thesis
    by (cases "drain items (s, a)") (simp add: tick_def)
qed

lemma tick_idle:
  assumes "scheduled s" and "queue s = []"
  shows "tick (s, a) b = drain b (s, a)"
proof -
  have "drain b (s\<lparr>queue := b\<rparr>, a) = drain b (s, a)"
    by (rule drain_depends) simp_all
  with assms show ?thesis by (simp add: tick_def poll_def)
qed

text \<open>
  However the items are spread over the ticks, the ticks do what one drain of all the
  items does, as long as a return code can only be the last item.
\<close>

lemma run_ticks_drain:
  assumes "scheduled s" and "queue s = []"
  shows "no_rc (butlast (concat batches)) \<Longrightarrow>
    run_ticks (s, a) batches = drain (concat batches) (s, a)"
proof (induction batches rule: rev_induct)
  case Nil
  from assms show ?case by (simp add: run_ticks_def pipeline.equality)
next
  case (snoc b bs)
  show ?case
  proof (cases "b = []")
    case True
    with snoc show ?thesis by (simp add: run_ticks_def tick_nil_drain)
  next
    case False
    with snoc.prems have free: "no_rc (concat bs)"
      by (simp add: butlast_append no_rc_append)
    then have ih: "run_ticks (s, a) bs = drain (concat bs) (s, a)"
      using snoc.IH by (simp add: no_rc_butlast)
    obtain s1 a1 where d: "drain (concat bs) (s, a) = (s1, a1)"
      by (cases "drain (concat bs) (s, a)")
    from drain_no_rc_idle [OF free, of s a] d have "scheduled s1" "queue s1 = []" by simp_all
    then have "tick (s1, a1) b = drain b (s1, a1)" by (rule tick_idle)
    with ih d show ?thesis by (simp add: run_ticks_def drain_append [OF free])
  qed
qed

lemma concat_replicate_nil: "concat (replicate n []) = []"
  by (induction n) simp_all

text \<open>
  C2. Let the worker put the chunks \<open>cs\<close>, then the sentinel and the return code \<open>rc\<close>, and
  let these items reach the queue in any batches between the ticks of \<open>poll\<close> (\<open>batches\<close>,
  some of them possibly empty). Then the ticks insert the chunks into the text widget in
  the order they were put, call \<open>on_complete_cb\<close> once, with \<open>rc\<close>, after the last insert,
  and the return code is the last item taken: the queue is empty and \<open>poll\<close> is no longer
  scheduled. The widget shows its former text followed by the chunks.
\<close>

theorem drain_in_order_callback_once:
  assumes "concat batches = map Chunk cs @ [Sentinel, RC rc]"
  shows "run_ticks (start_pipeline w cb, a) batches =
           (\<lparr>queue = [], text_widget = w, on_complete_cb = cb, scheduled = False,
             events = map Inserted cs @ [Completed rc]\<rparr>,
            call cb rc (insert_end w (concat cs) a))
         \<and> widget_text w (snd (run_ticks (start_pipeline w cb, a) batches)) =
             widget_text w a @ concat cs"
proof -
  have "no_rc (butlast (concat batches))"
    using assms by (simp add: butlast_append no_rc_append no_rc_map_Chunk)
  then have "run_ticks (start_pipeline w cb, a) batches =
      drain (concat batches) (start_pipeline w cb, a)"
    by (intro run_ticks_drain) (simp_all add: start_pipeline_def)
  then have "run_ticks (start_pipeline w cb, a) batches =
           (\<lparr>queue = [], text_widget = w, on_complete_cb = cb, scheduled = False,
             events = map Inserted cs @ [Completed rc]\<rparr>,
            call cb rc (insert_end w (concat cs) a))"
    by (simp add: assms drain_chunks) (simp add: start_pipeline_def)
  then show ?thesis
    by (simp add: widget_text_call widget_text_insert_end)
qed

theorem drain_in_order_callback_once_witness:
  "concat [ [Chunk ''a''], [], [Chunk ''b'', Sentinel], [RC 0] ] =
     map Chunk [''a'', ''b''] @ [Sentinel, RC 0]
   \<and> (run_ticks (start_pipeline TextOut OrganizerComplete, init_app)
        [ [Chunk ''a''], [], [Chunk ''b'', Sentinel], [RC 0] ] =
           (\<lparr>queue = [], text_widget = TextOut, on_complete_cb = OrganizerComplete,
             scheduled = False,
             events = map Inserted [''a'', ''b''] @ [Completed 0]\<rparr>,
            call OrganizerComplete 0 (insert_end TextOut (concat [''a'', ''b'']) init_app))
     \<and> widget_text TextOut
          (snd (run_ticks (start_pipeline TextOut OrganizerComplete, init_app)
             [ [Chunk ''a''], [], [Chunk ''b'', Sentinel], [RC 0] ])) =
         widget_text TextOut init_app @ concat [''a'', ''b''])"
proof -
  have c: "concat [ [Chunk ''a''], [], [Chunk ''b'', Sentinel], [RC 0] ] =
      map Chunk [''a'', ''b''] @ [Sentinel, RC 0]"
    by simp
  show ?thesis
    by (rule conjI [OF c drain_in_order_callback_once [OF c] ])
qed

text \<open>
  C8. After \<open>clear_output_text\<close> the output widget is empty, and a tick that finds nothing in
  the queue leaves it empty. The queue is not part of what \<open>clear_output_text\<close> changes:
  chunks \<open>cs\<close> that are in the queue when the widget is cleared are inserted by the next
  tick, together with chunks \<open>ds\<close> that arrive before it, also when the return code
  follows them.
\<close>

theorem clear_output_keeps_queued_chunks:
  "text_out (clear_output_text a) = []
   \<and> text_out (snd (tick (\<lparr>queue = [], text_widget = TextOut, on_complete_cb = cb,
                            scheduled = True, events = ev\<rparr>,
                          clear_output_text a) [])) = []
   \<and> text_out (snd (tick (\<lparr>queue = map Chunk cs, text_widget = TextOut, on_complete_cb = cb,
                            scheduled = True, events = ev\<rparr>,
                          clear_output_text a) (map Chunk ds))) = concat cs @ concat ds
   \<and> text_out (snd (tick (\<lparr>queue = map Chunk cs @ [Sentinel, RC rc], text_widget = TextOut,
                            on_complete_cb = cb, scheduled = True, events = ev\<rparr>,
                          clear_output_text a) [])) = concat cs"
proof -
  have t: "text_out (call cb rc b) = text_out b" for b
    using widget_text_call [of TextOut cb rc b] by simp
  have 1: "text_out (clear_output_text a) = []"
    by (simp add: clear_output_text_def)
  have 2: "text_out (snd (tick (\<lparr>queue = [], text_widget = TextOut, on_complete_cb = cb,
                            scheduled = True, events = ev\<rparr>,
                          clear_output_text a) [])) = []"
    by (simp add: tick_def poll_def clear_output_text_def)
  have 3: "text_out (snd (tick (\<lparr>queue = map Chunk cs, text_widget = TextOut,
                            on_complete_cb = cb, scheduled = True, events = ev\<rparr>,
                          clear_output_text a) (map Chunk ds))) = concat cs @ concat ds"
    using drain_chunks [of "cs @ ds" "[]"]
    by (simp add: tick_def poll_def clear_output_text_def)
  have 4: "text_out (snd (tick (\<lparr>queue = map Chunk cs @ [Sentinel, RC rc], text_widget = TextOut,
                            on_complete_cb = cb, scheduled = True, events = ev\<rparr>,
                          clear_output_text a) [])) = concat cs"
    by (simp add: tick_def poll_def clear_output_text_def drain_chunks t)
  from 1 2 3 4 show ?thesis by blast
qed

text \<open>
  C1. A script that exists but cannot be executed makes \<open>Popen\<close> raise \<open>PermissionError\<close>,
  which is not a \<open>FileNotFoundError\<close>: \<open>run_process\<close> lets it through, the worker thread
  dies before it has put anything, and however many ticks follow, \<open>poll\<close> finds the queue
  empty, inserts nothing, never calls \<open>on_complete_cb\<close> and stays scheduled.
\<close>

theorem unstartable_script_never_completes:
  "worker [''/app/organize_files.sh'', ''/src'', ''/out''] (PopenRaises ''PermissionError'') [] =
     ([], Died ''PermissionError'')
   \<and> run_ticks (start_pipeline TextOut OrganizerComplete, a) (replicate n []) =
       (start_pipeline TextOut OrganizerComplete, a)"
proof -
  have "run_ticks (start_pipeline TextOut OrganizerComplete, a) (replicate n []) =
      drain (concat (replicate n [])) (start_pipeline TextOut OrganizerComplete, a)"
    by (intro run_ticks_drain) (simp_all add: start_pipeline_def concat_replicate_nil)
  then show ?thesis
    by (simp add: worker_def concat_replicate_nil start_pipeline_def)
qed

section \<open>Properties of running the organizer\<close>

lemma map_of_replace:
  "map_of es c = Some n0 \<Longrightarrow>
   map_of (map (\<lambda>(k, m). if k = c then (k, x) else (k, m)) es) c = Some x"
  by (induction es) (auto split: if_splits)

lemma lookup_empty_dir:
  "lookup (Dir []) cs = (if cs = [] then Some (Dir []) else None)"
  by (cases cs) simp_all

lemma mkdirs_dirs:
  "mkdirs n cs = Inr n' \<Longrightarrow> i \<le> length cs \<Longrightarrow> \<exists>es. lookup n' (take i cs) = Some (Dir es)"
proof (induction cs arbitrary: n n' i)
  case Nil
  then show ?case by (cases n) auto
next
  case (Cons c cs)
  from Cons.prems(1) obtain es where n: "n = Dir es" by (cases n) simp_all
  show ?case
  proof (cases i)
    case 0
    with Cons.prems(1) n show ?thesis by (auto split: option.splits sum.splits)
  next
    case (Suc j)
    with Cons.prems(2) have j: "j \<le> length cs" by simp
    show ?thesis
    proof (cases "map_of es c")
      case None
      with Cons.prems(1) n obtain m where m: "mkdirs (Dir []) cs = Inr m"
        and n': "n' = Dir (es @ [(c, m)])"
        by (auto split: sum.splits)
      from Cons.IH [OF m j] None n' Suc show ?thesis by (simp add: map_add_def)
    next
      case (Some n0)
      with Cons.prems(1) n obtain m where m: "mkdirs n0 cs = Inr m"
        and n': "n' = Dir (map (\<lambda>(k, m'). if k = c then (k, m) else (k, m')) es)"
        by (auto split: sum.splits)
      from Cons.IH [OF m j] n' Suc map_of_replace [OF Some, of m] show ?thesis by simp
    qed
  qed
qed

lemma mkdirs_succeeds:
  "(\<And>i. i \<le> length cs \<Longrightarrow>
      (\<forall>v. lookup n (take i cs) \<noteq> Some (File v)) \<and> lookup n (take i cs) \<noteq> Some Locked) \<Longrightarrow>
   \<exists>n'. mkdirs n cs = Inr n'"
proof (induction cs arbitrary: n)
  case Nil
  from Nil [of 0] show ?case by (cases n) simp_all
next
  case (Cons c cs)
  from Cons.prems [of 0] obtain es where n: "n = Dir es" by (cases n) simp_all
  show ?case
  proof (cases "map_of es c")
    case None
    have "\<exists>n'. mkdirs (Dir []) cs = Inr n'"
      by (rule Cons.IH) (simp add: lookup_empty_dir)
    with None n show ?thesis by auto
  next
    case (Some n0)
    have "\<exists>n'. mkdirs n0 cs = Inr n'"
    proof (rule Cons.IH)
      fix i assume "i \<le> length cs"
      then have "Suc i \<le> length (c # cs)" by simp
      from Cons.prems [OF this] n Some
      show "(\<forall>v. lookup n0 (take i cs) \<noteq> Some (File v)) \<and> lookup n0 (take i cs) \<noteq> Some Locked"
        by simp
    qed
    with Some n show ?thesis by auto
  qed
qed

text \<open>
  C5. When the source entry or the output entry is empty once stripped, or the source path
  is not a directory, \<open>run_organizer\<close> shows one message box and returns at once: the file
  system and the rest of the application state are as before, and neither the worker
  thread nor a process is started.
\<close>

theorem invalid_paths_rejected_before_launch:
  assumes "strip (src_var a) = [] \<or> strip (out_var a) = [] \<or> \<not> isdir fs (strip (src_var a))"
  shows "run_organizer organize_script fs a =
           (fs,
            a\<lparr>dialogs := dialogs a @
               [if strip (src_var a) = [] \<or> strip (out_var a) = []
                then ShowWarning ''Missing paths'' ''Please select both source and output folders.''
                else ShowError ''Invalid source''
                       (''Source folder does not exist: '' @ strip (src_var a))]\<rparr>,
            Rejected)"
  using assms by (auto simp add: run_organizer_def Let_def)

theorem invalid_paths_rejected_before_launch_witness:
  "(strip (src_var (init_app\<lparr>src_var := ''  '', out_var := ''/out''\<rparr>)) = []
     \<or> strip (out_var (init_app\<lparr>src_var := ''  '', out_var := ''/out''\<rparr>)) = []
     \<or> \<not> isdir (Dir []) (strip (src_var (init_app\<lparr>src_var := ''  '', out_var := ''/out''\<rparr>))))
   \<and> run_organizer ''/app/organize_files.sh'' (Dir []) (init_app\<lparr>src_var := ''  '', out_var := ''/out''\<rparr>) =
       (Dir [],
        init_app\<lparr>src_var := ''  '', out_var := ''/out'',
          dialogs := [ShowWarning ''Missing paths'' ''Please select both source and output folders.'']\<rparr>,
        Rejected)"
proof -
  have s: "strip (src_var (init_app\<lparr>src_var := ''  '', out_var := ''/out''\<rparr>)) = []"
    by (simp add: strip_def isspace_def)
  then have h: "strip (src_var (init_app\<lparr>src_var := ''  '', out_var := ''/out''\<rparr>)) = []
     \<or> strip (out_var (init_app\<lparr>src_var := ''  '', out_var := ''/out''\<rparr>)) = []
     \<or> \<not> isdir (Dir []) (strip (src_var (init_app\<lparr>src_var := ''  '', out_var := ''/out''\<rparr>)))"
    by simp
  have d: "dialogs init_app = []" by (simp add: init_app_def)
  from invalid_paths_rejected_before_launch [OF h, of "''/app/organize_files.sh''"] s h d show ?thesis
    by simp
qed


text \<open>
  C9. When both entries are non-empty once stripped and the source path is a directory,
  \<open>run_organizer\<close> does not reject and shows no message box, whether the output path
  exists or not. Whenever it starts the worker thread, \<open>os.makedirs\<close> has returned, the
  output path and every parent of it is a directory, and the command is the script with
  the source and the output path. It starts the thread unless a file stands where the
  output path or one of its parents should be.
\<close>

theorem missing_output_dir_created:
  assumes "strip (src_var a) \<noteq> []" and "strip (out_var a) \<noteq> []"
    and "isdir fs (strip (src_var a))"
  shows "snd (snd (run_organizer organize_script fs a)) \<noteq> Rejected
    \<and> dialogs (fst (snd (run_organizer organize_script fs a))) = dialogs a
    \<and> (\<forall>fs' a' cmd w cb.
          run_organizer organize_script fs a = (fs', a', Started cmd w cb) \<longrightarrow>
            makedirs fs (strip (out_var a)) = Inr fs'
          \<and> isdir fs' (strip (out_var a))
          \<and> (\<forall>i \<le> length (components (strip (out_var a))).
                \<exists>es. lookup fs' (take i (components (strip (out_var a)))) = Some (Dir es))
          \<and> cmd = [organize_script, strip (src_var a), strip (out_var a)]
          \<and> w = TextOut \<and> cb = OrganizerComplete)
    \<and> ((\<forall>i \<le> length (components (strip (out_var a))).
           (\<forall>v. lookup fs (take i (components (strip (out_var a)))) \<noteq> Some (File v))
           \<and> lookup fs (take i (components (strip (out_var a)))) \<noteq> Some Locked) \<longrightarrow>
        (\<exists>fs' a'. run_organizer organize_script fs a =
           (fs', a',
            Started [organize_script, strip (src_var a), strip (out_var a)]
              TextOut OrganizerComplete)))"
proof -
  let ?out = "strip (out_var a)"
  let ?cs = "components ?out"
  have 1: "snd (snd (run_organizer organize_script fs a)) \<noteq> Rejected"
    using assms by (simp add: run_organizer_def Let_def split: sum.splits)
  have 2: "dialogs (fst (snd (run_organizer organize_script fs a))) = dialogs a"
    using assms by (simp add: run_organizer_def Let_def clear_output_text_def split: sum.splits)
  have 3: "makedirs fs ?out = Inr fs' \<and> isdir fs' ?out
          \<and> (\<forall>i \<le> length ?cs. \<exists>es. lookup fs' (take i ?cs) = Some (Dir es))
          \<and> cmd = [organize_script, strip (src_var a), ?out]
          \<and> w = TextOut \<and> cb = OrganizerComplete"
    if r: "run_organizer organize_script fs a = (fs', a', Started cmd w cb)" for fs' a' cmd w cb
  proof -
    from r assms have m: "makedirs fs ?out = Inr fs'"
      and c: "cmd = [organize_script, strip (src_var a), ?out]"
      and w: "w = TextOut" "cb = OrganizerComplete"
      by (auto simp add: run_organizer_def Let_def split: sum.splits)
    from m assms(2) have mk: "mkdirs fs ?cs = Inr fs'"
      by (simp add: makedirs_def)
    have all: "\<exists>es. lookup fs' (take i ?cs) = Some (Dir es)" if "i \<le> length ?cs" for i
      using mkdirs_dirs [OF mk that] .
    from all [of "length ?cs"] assms(2) have "isdir fs' ?out"
      by (auto simp add: isdir_def)
    with m c w all show ?thesis by blast
  qed
  have 4: "\<exists>fs' a'. run_organizer organize_script fs a =
           (fs', a', Started [organize_script, strip (src_var a), ?out] TextOut OrganizerComplete)"
    if free: "\<forall>i \<le> length ?cs.
           (\<forall>v. lookup fs (take i ?cs) \<noteq> Some (File v)) \<and> lookup fs (take i ?cs) \<noteq> Some Locked"
  proof -
    from free have "\<exists>n'. mkdirs fs ?cs = Inr n'"
      by (intro mkdirs_succeeds) blast
    then obtain n' where "makedirs fs ?out = Inr n'"
      using assms(2) by (auto simp add: makedirs_def)
    with assms show ?thesis
      by (simp add: run_organizer_def Let_def)
  qed
  from 1 2 3 4 show ?thesis by blast
qed

theorem missing_output_dir_created_witness:
  "strip (src_var (init_app\<lparr>src_var := ''/src'', out_var := '' /new/out''\<rparr>)) \<noteq> []
   \<and> strip (out_var (init_app\<lparr>src_var := ''/src'', out_var := '' /new/out''\<rparr>)) \<noteq> []
   \<and> isdir (Dir [(''src'', Dir [])])
        (strip (src_var (init_app\<lparr>src_var := ''/src'', out_var := '' /new/out''\<rparr>)))
   \<and> lookup (Dir [(''src'', Dir [])]) (components ''/new/out'') = None
   \<and> (\<exists>a'. run_organizer ''/app/organize_files.sh'' (Dir [(''src'', Dir [])])
              (init_app\<lparr>src_var := ''/src'', out_var := '' /new/out''\<rparr>) =
            (Dir [(''src'', Dir []), (''new'', Dir [(''out'', Dir [])])], a',
             Started [''/app/organize_files.sh'', ''/src'', ''/new/out'']
               TextOut OrganizerComplete))"
proof -
  let ?a = "init_app\<lparr>src_var := ''/src'', out_var := '' /new/out''\<rparr>"
  let ?fs = "Dir [(''src'', Dir [])]"
  have src: "strip ''/src'' = ''/src''"
    by (simp add: strip_def isspace_def)
  have out: "strip '' /new/out'' = ''/new/out''"
    by (simp add: strip_def isspace_def)
  have cs: "components ''/new/out'' = [''new'', ''out'']"
    by (simp add: components_def)
  have h1: "strip (src_var ?a) \<noteq> []" by (simp add: src)
  have h2: "strip (out_var ?a) \<noteq> []" by (simp add: out)
  have h3: "isdir ?fs (strip (src_var ?a))"
    by (simp add: src isdir_def components_def)
  have missing: "lookup ?fs (components ''/new/out'') = None"
    by (simp add: cs)
  have free: "\<forall>i \<le> length (components (strip (out_var ?a))).
           (\<forall>v. lookup ?fs (take i (components (strip (out_var ?a)))) \<noteq> Some (File v))
           \<and> lookup ?fs (take i (components (strip (out_var ?a)))) \<noteq> Some Locked"
  proof (intro allI impI)
    fix i assume "i \<le> length (components (strip (out_var ?a)))"
    then have "i = 0 \<or> i = 1 \<or> i = 2" by (auto simp add: out cs)
    then show "(\<forall>v. lookup ?fs (take i (components (strip (out_var ?a)))) \<noteq> Some (File v))
           \<and> lookup ?fs (take i (components (strip (out_var ?a)))) \<noteq> Some Locked"
      by (auto simp add: out cs)
  qed
  note inst = missing_output_dir_created [OF h1 h2 h3, of "''/app/organize_files.sh''"]
  from inst free obtain fs' a' where
    r: "run_organizer ''/app/organize_files.sh'' ?fs ?a =
         (fs', a', Started [''/app/organize_files.sh'', strip (src_var ?a), strip (out_var ?a)]
            TextOut OrganizerComplete)"
    by blast
  with inst have "makedirs ?fs (strip (out_var ?a)) = Inr fs'" by blast
  then have "fs' = Dir [(''src'', Dir []), (''new'', Dir [(''out'', Dir [])])]"
    by (simp add: out makedirs_def cs)
  with r src out have "\<exists>a'. run_organizer ''/app/organize_files.sh'' ?fs ?a =
            (Dir [(''src'', Dir []), (''new'', Dir [(''out'', Dir [])])], a',
             Started [''/app/organize_files.sh'', ''/src'', ''/new/out'']
               TextOut OrganizerComplete)"
    by simp
  with h1 h2 h3 missing show ?thesis by blast
qed

section \<open>Properties of the backup listing\<close>

lemma insert_zips_filter:
  "insert_zips files box = box @ filter (\<lambda>f. endswith (lower f) ''.zip'') files"
  by (induction files arbitrary: box) simp_all

lemma distinct_listdir: "distinct (listdir fs p)"
  by (simp add: listdir_def split: option.splits node.splits)

lemma descending_rev_sort:
  fixes xs :: "string list"
  assumes "distinct xs"
  shows "sorted_wrt (\<lambda>x y. y < x) (rev (sort xs))"
proof -
  have "sorted_wrt (<) (sort xs)"
    using assms by (simp add: strict_sorted_iff)
  then show ?thesis by (simp add: sorted_wrt_rev)
qed

text \<open>
  C4, amended. \<open>refresh_backups\<close> lists exactly the entries of the \<open>backups\<close> subdirectory
  whose names end in \<open>.zip\<close> when letter case is ignored, in strictly descending order of
  their names. With an empty directory entry or without a \<open>backups\<close> subdirectory the
  list is empty. Of \<open>backup_2023.zip\<close>, \<open>notes.txt\<close> and \<open>backup_2024.zip\<close> it lists
  \<open>backup_2024.zip\<close>, then \<open>backup_2023.zip\<close>.
\<close>

theorem backups_listed_newest_first:
  "((strip (back_dir_var a) = [] \<or> \<not> isdir fs (path_join (strip (back_dir_var a)) ''backups'')) \<longrightarrow>
      backups_list (refresh_backups fs a) = [])
   \<and> (strip (back_dir_var a) \<noteq> [] \<and> isdir fs (path_join (strip (back_dir_var a)) ''backups'') \<longrightarrow>
      set (backups_list (refresh_backups fs a)) =
        {f \<in> set (listdir fs (path_join (strip (back_dir_var a)) ''backups'')).
           endswith (lower f) ''.zip''}
      \<and> sorted_wrt (\<lambda>x y. y < x) (backups_list (refresh_backups fs a)))
   \<and> backups_list
        (refresh_backups
           (Dir [(''org'', Dir [(''backups'',
              Dir [(''backup_2023.zip'', File []), (''notes.txt'', File []),
                   (''backup_2024.zip'', File [])])])])
           (init_app\<lparr>back_dir_var := ''/org''\<rparr>)) =
       [''backup_2024.zip'', ''backup_2023.zip'']"
proof -
  let ?d = "strip (back_dir_var a)"
  let ?bd = "path_join ?d ''backups''"
  have 1: "backups_list (refresh_backups fs a) = []" if "?d = [] \<or> \<not> isdir fs ?bd"
    using that by (auto simp add: refresh_backups_def Let_def)
  have l: "backups_list (refresh_backups fs a) =
      filter (\<lambda>f. endswith (lower f) ''.zip'') (rev (sort (listdir fs ?bd)))"
    if "?d \<noteq> []" "isdir fs ?bd"
    using that by (simp add: refresh_backups_def Let_def insert_zips_filter)
  have 2: "set (backups_list (refresh_backups fs a)) =
        {f \<in> set (listdir fs ?bd). endswith (lower f) ''.zip''}
      \<and> sorted_wrt (\<lambda>x y. y < x) (backups_list (refresh_backups fs a))"
    if "?d \<noteq> []" "isdir fs ?bd"
    using l [OF that] descending_rev_sort [OF distinct_listdir, of fs ?bd]
    by (auto simp add: sorted_wrt_filter)
  have 3: "backups_list
        (refresh_backups
           (Dir [(''org'', Dir [(''backups'',
              Dir [(''backup_2023.zip'', File []), (''notes.txt'', File []),
                   (''backup_2024.zip'', File [])])])])
           (init_app\<lparr>back_dir_var := ''/org''\<rparr>)) =
       [''backup_2024.zip'', ''backup_2023.zip'']"
    by code_simp
  from 1 2 3 show ?thesis by blast
qed

theorem backups_listed_newest_first_witness:
  "(strip (back_dir_var (init_app\<lparr>back_dir_var := ''/org''\<rparr>)) \<noteq> []
     \<and> isdir (Dir [(''org'', Dir [(''backups'',
              Dir [(''A.ZIP'', File []), (''n.txt'', File []), (''b.zip'', File [])])])])
          (path_join (strip (back_dir_var (init_app\<lparr>back_dir_var := ''/org''\<rparr>))) ''backups''))
   \<and> sorted_wrt (\<lambda>x y. y < x)
        (backups_list
          (refresh_backups
             (Dir [(''org'', Dir [(''backups'',
                Dir [(''A.ZIP'', File []), (''n.txt'', File []), (''b.zip'', File [])])])])
             (init_app\<lparr>back_dir_var := ''/org''\<rparr>)))
   \<and> backups_list
          (refresh_backups
             (Dir [(''org'', Dir [(''backups'',
                Dir [(''A.ZIP'', File []), (''n.txt'', File []), (''b.zip'', File [])])])])
             (init_app\<lparr>back_dir_var := ''/org''\<rparr>)) = [''b.zip'', ''A.ZIP'']
   \<and> (strip (back_dir_var (init_app\<lparr>back_dir_var := ''/org''\<rparr>)) = []
        \<or> \<not> isdir (Dir [(''org'', Dir [])])
          (path_join (strip (back_dir_var (init_app\<lparr>back_dir_var := ''/org''\<rparr>))) ''backups''))
   \<and> backups_list
        (refresh_backups (Dir [(''org'', Dir [])]) (init_app\<lparr>back_dir_var := ''/org''\<rparr>)) = []"
proof -
  let ?a = "init_app\<lparr>back_dir_var := ''/org''\<rparr>"
  let ?fs1 = "Dir [(''org'', Dir [(''backups'',
                Dir [(''A.ZIP'', File []), (''n.txt'', File []), (''b.zip'', File [])])])]"
  let ?fs2 = "Dir [(''org'', Dir [])]"
  have h1: "strip (back_dir_var ?a) \<noteq> []
     \<and> isdir ?fs1 (path_join (strip (back_dir_var ?a)) ''backups'')"
    by code_simp
  have h2: "strip (back_dir_var ?a) = []
        \<or> \<not> isdir ?fs2 (path_join (strip (back_dir_var ?a)) ''backups'')"
    by code_simp
  have e: "backups_list (refresh_backups ?fs1 ?a) = [''b.zip'', ''A.ZIP'']"
    by code_simp
  from backups_listed_newest_first [where a = ?a and fs = ?fs1] h1
  have 1: "sorted_wrt (\<lambda>x y. y < x) (backups_list (refresh_backups ?fs1 ?a))"
    by blast
  from backups_listed_newest_first [where a = ?a and fs = ?fs2] h2
  have 2: "backups_list (refresh_backups ?fs2 ?a) = []"
    by blast
  from h1 1 e h2 2 show ?thesis by blast
qed

text \<open>
  C4 as it is stated fails on an entry named \<open>OLD.ZIP\<close>: the name does not end in
  \<open>.zip\<close>, and the entry is listed.
\<close>

theorem uppercase_zip_listed:
  "backups_list
     (refresh_backups (Dir [(''org'', Dir [(''backups'', Dir [(''OLD.ZIP'', File [])])])])
        (init_app\<lparr>back_dir_var := ''/org''\<rparr>)) = [''OLD.ZIP'']
   \<and> \<not> endswith ''OLD.ZIP'' ''.zip''"
  by code_simp

section \<open>Properties of the live log tailer\<close>

lemma tail_files_notin:
  "p \<notin> set ps \<Longrightarrow> snd (tail_files fs ps (parts, pos)) p = pos p"
  by (induction ps arbitrary: parts pos) (auto split: option.splits)

lemma get0_upd_other: "q \<noteq> p \<Longrightarrow> get0 (pos(q \<mapsto> e)) p = get0 pos p"
  by (simp add: get0_def)

lemma tail_files_step:
  "open_read fs q (get0 pos q) = Some (data, eof) \<Longrightarrow>
   tail_files fs (q # ps) (parts, pos) =
     tail_files fs ps (if data \<noteq> [] then parts @ [section_of q data] else parts, pos(q \<mapsto> eof))"
  by simp

lemma tail_files_skip:
  "open_read fs p (get0 pos p) = None \<Longrightarrow>
   tail_files fs ps (parts, pos) = tail_files fs (removeAll p ps) (parts, pos)"
proof (induction ps arbitrary: parts pos)
  case Nil
  then show ?case by simp
next
  case (Cons q ps)
  show ?case
  proof (cases "q = p")
    case True
    with Cons show ?thesis by simp
  next
    case False
    show ?thesis
    proof (cases "open_read fs q (get0 pos q)")
      case None
      with False Cons show ?thesis by simp
    next
      case (Some r)
      obtain data eof where r: "open_read fs q (get0 pos q) = Some (data, eof)"
        using Some by (cases r) simp
      let ?parts = "if data \<noteq> [] then parts @ [section_of q data] else parts"
      from Cons.prems False have "open_read fs p (get0 (pos(q \<mapsto> eof)) p) = None"
        by (simp add: get0_upd_other)
      then have "tail_files fs ps (?parts, pos(q \<mapsto> eof)) =
          tail_files fs (removeAll p ps) (?parts, pos(q \<mapsto> eof))"
        by (rule Cons.IH)
      moreover have "removeAll p (q # ps) = q # removeAll p ps"
        using False by simp
      ultimately show ?thesis
        by (simp only: tail_files_step [OF r])
    qed
  qed
qed

lemma tail_part_upd_other: "q \<noteq> p \<Longrightarrow> tail_part fs (pos(p \<mapsto> e)) q = tail_part fs pos q"
  by (simp add: tail_part_def get0_upd_other)

lemma tail_offset_upd_other: "q \<noteq> p \<Longrightarrow> tail_offset fs (pos(p \<mapsto> e)) q = tail_offset fs pos q"
  by (simp add: tail_offset_def get0_upd_other split: option.splits)

lemma tail_files_distinct:
  "distinct ps \<Longrightarrow>
   tail_files fs ps (parts, pos) =
     (parts @ concat (map (tail_part fs pos) ps),
      \<lambda>q. if q \<in> set ps then tail_offset fs pos q else pos q)"
proof (induction ps arbitrary: parts pos)
  case Nil
  then show ?case by simp
next
  case (Cons p ps)
  then have d: "distinct ps" and notin: "p \<notin> set ps" by simp_all
  show ?case
  proof (cases "open_read fs p (get0 pos p)")
    case None
    then have "tail_part fs pos p = []" "tail_offset fs pos p = pos p"
      by (simp_all add: tail_part_def tail_offset_def)
    with None Cons.IH [OF d, of parts pos] show ?thesis
      by (auto simp add: fun_eq_iff)
  next
    case (Some r)
    obtain data eof where r: "open_read fs p (get0 pos p) = Some (data, eof)"
      using Some by (cases r) simp
    let ?parts = "if data \<noteq> [] then parts @ [section_of p data] else parts"
    let ?pos = "pos(p \<mapsto> eof)"
    have f: "tail_part fs pos p = (if data \<noteq> [] then [section_of p data] else [])"
      and mv: "tail_offset fs pos p = Some eof"
      using r by (simp_all add: tail_part_def tail_offset_def)
    have ne: "q \<noteq> p" if "q \<in> set ps" for q
      using that notin by auto
    have m: "map (tail_part fs ?pos) ps = map (tail_part fs pos) ps"
      by (rule map_cong) (simp_all add: tail_part_upd_other ne)
    have "tail_files fs (p # ps) (parts, pos) = tail_files fs ps (?parts, ?pos)"
      by (rule tail_files_step [OF r])
    also have "\<dots> = (?parts @ concat (map (tail_part fs ?pos) ps),
      \<lambda>q. if q \<in> set ps then tail_offset fs ?pos q else ?pos q)"
      by (rule Cons.IH [OF d])
    also have "\<dots> = (parts @ concat (map (tail_part fs pos) (p # ps)),
      \<lambda>q. if q \<in> set (p # ps) then tail_offset fs pos q else pos q)"
      using notin by (auto simp add: m f mv fun_eq_iff tail_offset_upd_other ne)
    finally show ?thesis .
  qed
qed

lemma do_tail_of:
  "live_logs_running a \<Longrightarrow>
   tail_files fs (live_log_paths a) ([], tail_positions a) = (parts, pos) \<Longrightarrow>
   do_tail fs a =
     a\<lparr>tail_positions := pos, text_logs := text_logs a @ join_nl parts,
       tail_timers := tail_timers a + 1\<rparr>"
  by (cases "parts = []") (simp_all add: do_tail_def Let_def)

lemma do_tail_running:
  assumes "live_logs_running a" and "distinct (live_log_paths a)"
  shows "do_tail fs a =
     a\<lparr>tail_positions :=
         (\<lambda>q. if q \<in> set (live_log_paths a) then tail_offset fs (tail_positions a) q
              else tail_positions a q),
       text_logs :=
         text_logs a @ join_nl (concat (map (tail_part fs (tail_positions a)) (live_log_paths a))),
       tail_timers := tail_timers a + 1\<rparr>"
proof (rule do_tail_of [OF assms(1)])
  show "tail_files fs (live_log_paths a) ([], tail_positions a) =
      (concat (map (tail_part fs (tail_positions a)) (live_log_paths a)),
       \<lambda>q. if q \<in> set (live_log_paths a) then tail_offset fs (tail_positions a) q
            else tail_positions a q)"
    using tail_files_distinct [OF assms(2), of fs "[]" "tail_positions a"] by simp
qed

text \<open>
  C3. On a tick of the running tailer, a tailed file that can be read and is at least as
  long as its recorded offset gets its length as the new offset, and adds the text from
  the old offset on, under a header with its base name, unless that text is empty; the
  log view is extended by what the tailed files add, joined by newlines. In particular:
  the log file holds \<open>X\<close> when the tailer is started and \<open>XY\<close> when the next timer fires;
  then the log view holds the section of \<open>X\<close> followed by the section of \<open>Y\<close>, each letter
  once, and the recorded offset is the length of the file.
\<close>

theorem tailer_reads_from_recorded_offset:
  "(live_logs_running a \<and> distinct (live_log_paths a) \<and> p \<in> set (live_log_paths a)
      \<and> lookup fs (components p) = Some (File v) \<and> get0 (tail_positions a) p \<le> length v \<longrightarrow>
        tail_positions (do_tail fs a) p = Some (length v)
      \<and> tail_part fs (tail_positions a) p =
          (if drop (get0 (tail_positions a) p) v = [] then []
           else [''--- '' @ basename p @ '' ---'' @ nl @ drop (get0 (tail_positions a) p) v @ nl])
      \<and> text_logs (do_tail fs a) =
          text_logs a @ join_nl (concat (map (tail_part fs (tail_positions a)) (live_log_paths a))))
   \<and> text_logs
        (timer_fires (Dir [(''out'', Dir [(''organizer.log'', File ''XY'')])])
           (start_live_logs (Dir [(''out'', Dir [(''organizer.log'', File ''X'')])])
              (init_app\<lparr>log_dir_var := ''/out''\<rparr>))) =
       ''--- organizer.log ---'' @ nl @ ''X'' @ nl @ ''--- organizer.log ---'' @ nl @ ''Y'' @ nl
   \<and> tail_positions
        (timer_fires (Dir [(''out'', Dir [(''organizer.log'', File ''XY'')])])
           (start_live_logs (Dir [(''out'', Dir [(''organizer.log'', File ''X'')])])
              (init_app\<lparr>log_dir_var := ''/out''\<rparr>))) ''/out/organizer.log'' = Some (length ''XY'')
   \<and> count_list
        (text_logs
          (timer_fires (Dir [(''out'', Dir [(''organizer.log'', File ''XY'')])])
             (start_live_logs (Dir [(''out'', Dir [(''organizer.log'', File ''X'')])])
                (init_app\<lparr>log_dir_var := ''/out''\<rparr>)))) (CHR ''X'') = 1
   \<and> count_list
        (text_logs
          (timer_fires (Dir [(''out'', Dir [(''organizer.log'', File ''XY'')])])
             (start_live_logs (Dir [(''out'', Dir [(''organizer.log'', File ''X'')])])
                (init_app\<lparr>log_dir_var := ''/out''\<rparr>)))) (CHR ''Y'') = 1"
proof -
  have g: "tail_positions (do_tail fs a) p = Some (length v)
      \<and> tail_part fs (tail_positions a) p =
          (if drop (get0 (tail_positions a) p) v = [] then []
           else [''--- '' @ basename p @ '' ---'' @ nl @ drop (get0 (tail_positions a) p) v @ nl])
      \<and> text_logs (do_tail fs a) =
          text_logs a @ join_nl (concat (map (tail_part fs (tail_positions a)) (live_log_paths a)))"
    if h: "live_logs_running a" "distinct (live_log_paths a)" "p \<in> set (live_log_paths a)"
      "lookup fs (components p) = Some (File v)" "get0 (tail_positions a) p \<le> length v"
  proof -
    from h(4) have o: "open_read fs p (get0 (tail_positions a) p) =
        Some (drop (get0 (tail_positions a) p) v, max (get0 (tail_positions a) p) (length v))"
      by (simp add: open_read_def)
    from o h(5) have "tail_offset fs (tail_positions a) p = Some (length v)"
      by (simp add: tail_offset_def max_def)
    moreover from o have "tail_part fs (tail_positions a) p =
          (if drop (get0 (tail_positions a) p) v = [] then []
           else [''--- '' @ basename p @ '' ---'' @ nl @ drop (get0 (tail_positions a) p) v @ nl])"
      by (simp add: tail_part_def section_of_def)
    ultimately show ?thesis
      using h(3) by (simp add: do_tail_running [OF h(1) h(2), of fs])
  qed
  have s1: "text_logs
        (timer_fires (Dir [(''out'', Dir [(''organizer.log'', File ''XY'')])])
           (start_live_logs (Dir [(''out'', Dir [(''organizer.log'', File ''X'')])])
              (init_app\<lparr>log_dir_var := ''/out''\<rparr>))) =
       ''--- organizer.log ---'' @ nl @ ''X'' @ nl @ ''--- organizer.log ---'' @ nl @ ''Y'' @ nl"
    by code_simp
  have s2: "tail_positions
        (timer_fires (Dir [(''out'', Dir [(''organizer.log'', File ''XY'')])])
           (start_live_logs (Dir [(''out'', Dir [(''organizer.log'', File ''X'')])])
              (init_app\<lparr>log_dir_var := ''/out''\<rparr>))) ''/out/organizer.log'' = Some (length ''XY'')"
    by code_simp
  have s3: "count_list
        (text_logs
          (timer_fires (Dir [(''out'', Dir [(''organizer.log'', File ''XY'')])])
             (start_live_logs (Dir [(''out'', Dir [(''organizer.log'', File ''X'')])])
                (init_app\<lparr>log_dir_var := ''/out''\<rparr>)))) (CHR ''X'') = 1"
    by code_simp
  have s4: "count_list
        (text_logs
          (timer_fires (Dir [(''out'', Dir [(''organizer.log'', File ''XY'')])])
             (start_live_logs (Dir [(''out'', Dir [(''organizer.log'', File ''X'')])])
                (init_app\<lparr>log_dir_var := ''/out''\<rparr>)))) (CHR ''Y'') = 1"
    by code_simp
  from g s1 s2 s3 s4 show ?thesis by blast
qed

theorem tailer_reads_from_recorded_offset_witness:
  "(live_logs_running
      (start_live_logs (Dir [(''out'', Dir [(''organizer.log'', File ''X'')])])
         (init_app\<lparr>log_dir_var := ''/out''\<rparr>))
    \<and> distinct (live_log_paths
      (start_live_logs (Dir [(''out'', Dir [(''organizer.log'', File ''X'')])])
         (init_app\<lparr>log_dir_var := ''/out''\<rparr>)))
    \<and> ''/out/organizer.log'' \<in> set (live_log_paths
      (start_live_logs (Dir [(''out'', Dir [(''organizer.log'', File ''X'')])])
         (init_app\<lparr>log_dir_var := ''/out''\<rparr>)))
    \<and> lookup (Dir [(''out'', Dir [(''organizer.log'', File ''XY'')])])
         (components ''/out/organizer.log'') = Some (File ''XY'')
    \<and> get0 (tail_positions
      (start_live_logs (Dir [(''out'', Dir [(''organizer.log'', File ''X'')])])
         (init_app\<lparr>log_dir_var := ''/out''\<rparr>))) ''/out/organizer.log'' \<le> length ''XY'')
   \<and> tail_positions
        (do_tail (Dir [(''out'', Dir [(''organizer.log'', File ''XY'')])])
           (start_live_logs (Dir [(''out'', Dir [(''organizer.log'', File ''X'')])])
              (init_app\<lparr>log_dir_var := ''/out''\<rparr>))) ''/out/organizer.log'' =
       Some (length ''XY'')"
proof -
  have h: "live_logs_running
      (start_live_logs (Dir [(''out'', Dir [(''organizer.log'', File ''X'')])])
         (init_app\<lparr>log_dir_var := ''/out''\<rparr>))
    \<and> distinct (live_log_paths
      (start_live_logs (Dir [(''out'', Dir [(''organizer.log'', File ''X'')])])
         (init_app\<lparr>log_dir_var := ''/out''\<rparr>)))
    \<and> ''/out/organizer.log'' \<in> set (live_log_paths
      (start_live_logs (Dir [(''out'', Dir [(''organizer.log'', File ''X'')])])
         (init_app\<lparr>log_dir_var := ''/out''\<rparr>)))
    \<and> lookup (Dir [(''out'', Dir [(''organizer.log'', File ''XY'')])])
         (components ''/out/organizer.log'') = Some (File ''XY'')
    \<and> get0 (tail_positions
      (start_live_logs (Dir [(''out'', Dir [(''organizer.log'', File ''X'')])])
         (init_app\<lparr>log_dir_var := ''/out''\<rparr>))) ''/out/organizer.log'' \<le> length ''XY''"
    by code_simp
  from tailer_reads_from_recorded_offset [of "start_live_logs (Dir [(''out'', Dir [(''organizer.log'', File ''X'')])])
         (init_app\<lparr>log_dir_var := ''/out''\<rparr>)" "''/out/organizer.log''"
      "Dir [(''out'', Dir [(''organizer.log'', File ''XY'')])]" "''XY''"] h
  show ?thesis by blast
qed

lemma unreadable_open_read:
  "(\<And>v. lookup fs (components p) \<noteq> Some (File v)) \<Longrightarrow> open_read fs p k = None"
  by (auto simp add: open_read_def split: option.splits node.splits)

lemma do_tail_removeAll:
  assumes "open_read fs p (get0 (tail_positions a) p) = None"
  shows "do_tail fs a =
    (do_tail fs (a\<lparr>live_log_paths := removeAll p (live_log_paths a)\<rparr>))
      \<lparr>live_log_paths := live_log_paths a\<rparr>"
proof (cases "live_logs_running a")
  case False
  then show ?thesis by (simp add: do_tail_def)
next
  case True
  obtain parts pos where t: "tail_files fs (live_log_paths a) ([], tail_positions a) = (parts, pos)"
    by (cases "tail_files fs (live_log_paths a) ([], tail_positions a)")
  with tail_files_skip [OF assms, of "live_log_paths a" "[]"]
  have t': "tail_files fs (removeAll p (live_log_paths a)) ([], tail_positions a) = (parts, pos)"
    by simp
  have "do_tail fs (a\<lparr>live_log_paths := removeAll p (live_log_paths a)\<rparr>) =
     (a\<lparr>live_log_paths := removeAll p (live_log_paths a)\<rparr>)
       \<lparr>tail_positions := pos,
        text_logs := text_logs (a\<lparr>live_log_paths := removeAll p (live_log_paths a)\<rparr>) @ join_nl parts,
        tail_timers := tail_timers (a\<lparr>live_log_paths := removeAll p (live_log_paths a)\<rparr>) + 1\<rparr>"
    by (rule do_tail_of) (simp_all add: True t')
  with do_tail_of [OF True t] show ?thesis by simp
qed

lemma do_tail_position_kept:
  assumes "open_read fs p (get0 (tail_positions a) p) = None"
  shows "tail_positions (do_tail fs a) p = tail_positions a p"
proof (cases "live_logs_running a")
  case False
  then show ?thesis by (simp add: do_tail_def)
next
  case True
  obtain parts pos where t: "tail_files fs (live_log_paths a) ([], tail_positions a) = (parts, pos)"
    by (cases "tail_files fs (live_log_paths a) ([], tail_positions a)")
  with tail_files_skip [OF assms, of "live_log_paths a" "[]"]
  have "tail_files fs (removeAll p (live_log_paths a)) ([], tail_positions a) = (parts, pos)"
    by simp
  with tail_files_notin [of p "removeAll p (live_log_paths a)" fs "[]" "tail_positions a"]
  have "pos p = tail_positions a p" by simp
  with do_tail_of [OF True t] show ?thesis by simp
qed

lemma dialogs_do_tail: "dialogs (do_tail fs a) = dialogs a"
  by (simp add: do_tail_def Let_def split: prod.splits)

lemma paths_do_tail: "live_log_paths (do_tail fs a) = live_log_paths a"
  by (simp add: do_tail_def Let_def split: prod.splits)

lemma running_do_tail: "live_logs_running (do_tail fs a) = live_logs_running a"
  by (simp add: do_tail_def Let_def split: prod.splits)

text \<open>
  C7. On a tick of the running tailer, a tailed path that is not a readable file (it is
  gone, is a directory, or cannot be opened or decoded) keeps its recorded offset; no
  message box is shown; the tick does what it would do without that path in the list, so
  with this path alone the log view is unchanged; the tailer stays running and schedules
  its next tick. When the file can be read again on a later tick, it is read from the
  offset recorded before the failure.
\<close>

theorem unreadable_file_skipped:
  assumes "live_logs_running a" and "\<forall>v. lookup fs (components p) \<noteq> Some (File v)"
  shows "tail_positions (do_tail fs a) p = tail_positions a p
    \<and> dialogs (do_tail fs a) = dialogs a
    \<and> do_tail fs a =
        (do_tail fs (a\<lparr>live_log_paths := removeAll p (live_log_paths a)\<rparr>))
          \<lparr>live_log_paths := live_log_paths a\<rparr>
    \<and> (live_log_paths a = [p] \<longrightarrow> text_logs (do_tail fs a) = text_logs a)
    \<and> live_logs_running (do_tail fs a)
    \<and> tail_timers (do_tail fs a) = tail_timers a + 1
    \<and> (\<forall>fs' v. distinct (live_log_paths a) \<and> p \<in> set (live_log_paths a)
          \<and> lookup fs' (components p) = Some (File v) \<longrightarrow>
          tail_positions (do_tail fs' (do_tail fs a)) p =
            Some (max (get0 (tail_positions a) p) (length v))
          \<and> tail_part fs' (tail_positions (do_tail fs a)) p =
              (if drop (get0 (tail_positions a) p) v = [] then []
               else [section_of p (drop (get0 (tail_positions a) p) v)]))"
proof -
  from assms(2) have o: "open_read fs p (get0 (tail_positions a) p) = None"
    by (intro unreadable_open_read) simp
  have 1: "tail_positions (do_tail fs a) p = tail_positions a p"
    by (rule do_tail_position_kept [OF o])
  have 2: "dialogs (do_tail fs a) = dialogs a"
    by (rule dialogs_do_tail)
  have 3: "do_tail fs a =
        (do_tail fs (a\<lparr>live_log_paths := removeAll p (live_log_paths a)\<rparr>))
          \<lparr>live_log_paths := live_log_paths a\<rparr>"
    by (rule do_tail_removeAll [OF o])
  have 4: "text_logs (do_tail fs a) = text_logs a" if "live_log_paths a = [p]"
    using that assms(1) o by (simp add: do_tail_def)
  have 5: "live_logs_running (do_tail fs a)"
    using assms(1) by (simp add: running_do_tail)
  obtain parts pos where t: "tail_files fs (live_log_paths a) ([], tail_positions a) = (parts, pos)"
    by (cases "tail_files fs (live_log_paths a) ([], tail_positions a)")
  have 6: "tail_timers (do_tail fs a) = tail_timers a + 1"
    using do_tail_of [OF assms(1) t] by simp
  have 7: "tail_positions (do_tail fs' (do_tail fs a)) p =
            Some (max (get0 (tail_positions a) p) (length v))
          \<and> tail_part fs' (tail_positions (do_tail fs a)) p =
              (if drop (get0 (tail_positions a) p) v = [] then []
               else [section_of p (drop (get0 (tail_positions a) p) v)])"
    if h: "distinct (live_log_paths a)" "p \<in> set (live_log_paths a)"
      "lookup fs' (components p) = Some (File v)" for fs' v
  proof -
    have g: "get0 (tail_positions (do_tail fs a)) p = get0 (tail_positions a) p"
      using 1 by (simp add: get0_def)
    from h(3) have o': "open_read fs' p (get0 (tail_positions (do_tail fs a)) p) =
        Some (drop (get0 (tail_positions a) p) v, max (get0 (tail_positions a) p) (length v))"
      by (simp add: open_read_def g)
    have "tail_positions (do_tail fs' (do_tail fs a)) p =
        tail_offset fs' (tail_positions (do_tail fs a)) p"
      using h(1) h(2) 5
      by (simp add: do_tail_running [of "do_tail fs a" fs'] paths_do_tail)
    with o' show ?thesis by (simp add: tail_offset_def tail_part_def)
  qed
  from 1 2 3 4 5 6 7 show ?thesis by blast
qed

theorem unreadable_file_skipped_witness:
  "live_logs_running
     (start_live_logs (Dir [(''out'', Dir [(''organizer.log'', File ''X'')])])
        (init_app\<lparr>log_dir_var := ''/out''\<rparr>))
   \<and> (\<forall>v. lookup (Dir [(''out'', Dir [])]) (components ''/out/organizer.log'') \<noteq> Some (File v))
   \<and> tail_positions
        (do_tail (Dir [(''out'', Dir [])])
           (start_live_logs (Dir [(''out'', Dir [(''organizer.log'', File ''X'')])])
              (init_app\<lparr>log_dir_var := ''/out''\<rparr>))) ''/out/organizer.log'' = Some 1
   \<and> dialogs
        (do_tail (Dir [(''out'', Dir [])])
           (start_live_logs (Dir [(''out'', Dir [(''organizer.log'', File ''X'')])])
              (init_app\<lparr>log_dir_var := ''/out''\<rparr>))) = []
   \<and> live_log_paths
        (start_live_logs (Dir [(''out'', Dir [(''organizer.log'', File ''X'')])])
           (init_app\<lparr>log_dir_var := ''/out''\<rparr>)) = [''/out/organizer.log'']
   \<and> text_logs
        (do_tail (Dir [(''out'', Dir [])])
           (start_live_logs (Dir [(''out'', Dir [(''organizer.log'', File ''X'')])])
              (init_app\<lparr>log_dir_var := ''/out''\<rparr>))) =
       text_logs
         (start_live_logs (Dir [(''out'', Dir [(''organizer.log'', File ''X'')])])
            (init_app\<lparr>log_dir_var := ''/out''\<rparr>))
   \<and> lookup (Dir [(''out'', Dir [(''organizer.log'', File ''XY'')])])
        (components ''/out/organizer.log'') = Some (File ''XY'')
   \<and> tail_positions
        (do_tail (Dir [(''out'', Dir [(''organizer.log'', File ''XY'')])])
           (do_tail (Dir [(''out'', Dir [])])
              (start_live_logs (Dir [(''out'', Dir [(''organizer.log'', File ''X'')])])
                 (init_app\<lparr>log_dir_var := ''/out''\<rparr>)))) ''/out/organizer.log'' = Some 2"
proof -
  let ?a1 = "start_live_logs (Dir [(''out'', Dir [(''organizer.log'', File ''X'')])])
        (init_app\<lparr>log_dir_var := ''/out''\<rparr>)"
  let ?fs = "Dir [(''out'', Dir [])]"
  let ?fs' = "Dir [(''out'', Dir [(''organizer.log'', File ''XY'')])]"
  have h1: "live_logs_running ?a1"
    by code_simp
  have "lookup ?fs (components ''/out/organizer.log'') = None"
    by code_simp
  then have h2: "\<forall>v. lookup ?fs (components ''/out/organizer.log'') \<noteq> Some (File v)"
    by simp
  have p: "tail_positions ?a1 ''/out/organizer.log'' = Some 1"
    by code_simp
  have d: "dialogs ?a1 = []"
    by code_simp
  have l: "live_log_paths ?a1 = [''/out/organizer.log'']"
    by code_simp
  have f: "lookup ?fs' (components ''/out/organizer.log'') = Some (File ''XY'')"
    by code_simp
  have m: "Some (max (get0 (tail_positions ?a1) ''/out/organizer.log'') (length ''XY'')) = Some 2"
    by code_simp
  note inst = unreadable_file_skipped [OF h1 h2]
  from inst
  have q: "tail_positions (do_tail ?fs ?a1) ''/out/organizer.log'' =
      tail_positions ?a1 ''/out/organizer.log''"
    and r: "dialogs (do_tail ?fs ?a1) = dialogs ?a1"
    by blast+
  from q p have 1: "tail_positions (do_tail ?fs ?a1) ''/out/organizer.log'' = Some 1"
    by (rule trans)
  from r d have 2: "dialogs (do_tail ?fs ?a1) = []"
    by (rule trans)
  from inst l have 3: "text_logs (do_tail ?fs ?a1) = text_logs ?a1"
    by blast
  from l have dp: "distinct (live_log_paths ?a1) \<and> ''/out/organizer.log'' \<in> set (live_log_paths ?a1)"
    by simp
  from inst dp f
  have "tail_positions (do_tail ?fs' (do_tail ?fs ?a1)) ''/out/organizer.log'' =
      Some (max (get0 (tail_positions ?a1) ''/out/organizer.log'') (length ''XY''))"
    by blast
  from this m have 4: "tail_positions (do_tail ?fs' (do_tail ?fs ?a1)) ''/out/organizer.log'' = Some 2"
    by (rule trans)
  from h1 h2 1 2 l 3 f 4 show ?thesis by blast
qed

lemma paths_timer_fires: "live_log_paths (timer_fires fs a) = live_log_paths a"
  by (simp add: timer_fires_def paths_do_tail)

lemma paths_ticks: "live_log_paths (foldl (\<lambda>a fs. timer_fires fs a) b fss) = live_log_paths b"
  by (induction fss arbitrary: b) (simp_all add: paths_timer_fires)

lemma map_of_zero: "q \<in> set ps \<Longrightarrow> map_of (map (\<lambda>p. (p, 0::nat)) ps) q = Some 0"
  by (induction ps) auto

lemma dom_started:
  "dom (\<lambda>q. if q \<in> set ps then tail_offset fs (map_of (map (\<lambda>p. (p, 0::nat)) ps)) q
             else map_of (map (\<lambda>p. (p, 0)) ps) q) = set ps"
proof -
  have "tail_offset fs (map_of (map (\<lambda>p. (p, 0::nat)) ps)) q \<noteq> None" if "q \<in> set ps" for q
    using map_of_zero [OF that] by (simp add: tail_offset_def split: option.splits)
  moreover have "map_of (map (\<lambda>p. (p, 0::nat)) ps) q = None" if "q \<notin> set ps" for q
    using that by (simp add: map_of_eq_None_iff image_iff)
  ultimately show ?thesis by (auto simp add: dom_def)
qed

lemma log_names_differ:
  "path_join d ''organizer.log'' \<noteq> path_join d ''integrity_check.log''"
  by (simp add: path_join_def)

lemma start_live_logs_started:
  assumes "strip (log_dir_var a) \<noteq> []"
    and "filter (isfile fs) [path_join (strip (log_dir_var a)) ''organizer.log'',
                             path_join (strip (log_dir_var a)) ''integrity_check.log''] \<noteq> []"
  shows "start_live_logs fs a =
    do_tail fs
      (a\<lparr>live_log_paths :=
           filter (isfile fs) [path_join (strip (log_dir_var a)) ''organizer.log'',
                               path_join (strip (log_dir_var a)) ''integrity_check.log''],
         live_logs_running := True,
         text_logs := [],
         tail_positions :=
           map_of (map (\<lambda>p. (p, 0))
             (filter (isfile fs) [path_join (strip (log_dir_var a)) ''organizer.log'',
                                  path_join (strip (log_dir_var a)) ''integrity_check.log'']))\<rparr>)"
  using assms by (auto simp add: start_live_logs_def Let_def)

lemma start_live_logs_not_started:
  assumes "filter (isfile fs) [path_join (strip (log_dir_var a)) ''organizer.log'',
                             path_join (strip (log_dir_var a)) ''integrity_check.log''] = []"
  shows "start_live_logs fs a =
    a\<lparr>dialogs := dialogs a @
       [if strip (log_dir_var a) = []
        then ShowWarning ''Select directory'' ''Select organized directory to read logs from.''
        else ShowWarning ''No logs'' ''No log files found in the selected directory.'']\<rparr>"
  using assms by (auto simp add: start_live_logs_def Let_def split: if_splits)

text \<open>
  C10. \<open>start_live_logs\<close> looks at \<open>organizer.log\<close> and \<open>integrity_check.log\<close> in the stripped
  directory entry only. When at least one of them is a file, the tailed paths are exactly
  those of the two that are files, in this order, offsets are recorded for exactly these,
  the tailer runs and one timer is set. When neither is a file, the state is as before
  but for one warning: the flag, the paths, the recorded offsets and the pending timers
  are unchanged. No later tick changes the tailed paths, whatever the file system holds
  by then.
\<close>

theorem live_logs_fixed_names:
  "(strip (log_dir_var a) \<noteq> []
     \<and> filter (isfile fs) [path_join (strip (log_dir_var a)) ''organizer.log'',
                            path_join (strip (log_dir_var a)) ''integrity_check.log''] \<noteq> [] \<longrightarrow>
       live_log_paths (start_live_logs fs a) =
         filter (isfile fs) [path_join (strip (log_dir_var a)) ''organizer.log'',
                             path_join (strip (log_dir_var a)) ''integrity_check.log'']
     \<and> live_logs_running (start_live_logs fs a)
     \<and> tail_timers (start_live_logs fs a) = tail_timers a + 1
     \<and> dom (tail_positions (start_live_logs fs a)) =
         set (filter (isfile fs) [path_join (strip (log_dir_var a)) ''organizer.log'',
                                  path_join (strip (log_dir_var a)) ''integrity_check.log'']))
   \<and> (filter (isfile fs) [path_join (strip (log_dir_var a)) ''organizer.log'',
                           path_join (strip (log_dir_var a)) ''integrity_check.log''] = [] \<longrightarrow>
       start_live_logs fs a =
         a\<lparr>dialogs := dialogs a @
            [if strip (log_dir_var a) = []
             then ShowWarning ''Select directory'' ''Select organized directory to read logs from.''
             else ShowWarning ''No logs'' ''No log files found in the selected directory.'']\<rparr>
     \<and> live_logs_running (start_live_logs fs a) = live_logs_running a
     \<and> live_log_paths (start_live_logs fs a) = live_log_paths a
     \<and> tail_positions (start_live_logs fs a) = tail_positions a
     \<and> tail_timers (start_live_logs fs a) = tail_timers a)
   \<and> live_log_paths (foldl (\<lambda>b fs'. timer_fires fs' b) (start_live_logs fs a) fss) =
       live_log_paths (start_live_logs fs a)"
proof -
  let ?cands = "[path_join (strip (log_dir_var a)) ''organizer.log'',
                 path_join (strip (log_dir_var a)) ''integrity_check.log'']"
  let ?paths = "filter (isfile fs) ?cands"
  let ?a0 = "a\<lparr>live_log_paths := ?paths, live_logs_running := True, text_logs := [],
              tail_positions := map_of (map (\<lambda>p. (p, 0)) ?paths)\<rparr>"
  have d: "distinct ?paths"
    using log_names_differ [of "strip (log_dir_var a)"] by simp
  have 1: "live_log_paths (start_live_logs fs a) = ?paths
     \<and> live_logs_running (start_live_logs fs a)
     \<and> tail_timers (start_live_logs fs a) = tail_timers a + 1
     \<and> dom (tail_positions (start_live_logs fs a)) = set ?paths"
    if h: "strip (log_dir_var a) \<noteq> []" "?paths \<noteq> []"
  proof -
    define paths where "paths = ?paths"
    define a0 where "a0 = a\<lparr>live_log_paths := paths, live_logs_running := True, text_logs := [],
              tail_positions := map_of (map (\<lambda>p. (p, 0)) paths)\<rparr>"
    have s: "start_live_logs fs a = do_tail fs a0"
      unfolding a0_def paths_def by (rule start_live_logs_started [OF h])
    have r: "live_logs_running a0" and d0: "distinct (live_log_paths a0)"
      using d by (simp_all add: a0_def paths_def)
    have f: "live_log_paths a0 = paths" "tail_timers a0 = tail_timers a"
      "tail_positions a0 = map_of (map (\<lambda>p. (p, 0)) paths)"
      by (simp_all add: a0_def)
    have "tail_positions (do_tail fs a0) =
        (\<lambda>q. if q \<in> set paths then tail_offset fs (map_of (map (\<lambda>p. (p, 0::nat)) paths)) q
             else map_of (map (\<lambda>p. (p, 0)) paths) q)"
      by (simp add: do_tail_running [OF r d0] f cong: if_cong)
    then have "dom (tail_positions (do_tail fs a0)) = set paths"
      by (simp only: dom_started)
    then show ?thesis
      by (simp add: s paths_do_tail running_do_tail r f do_tail_running [OF r d0] paths_def)
  qed
  have 2: "start_live_logs fs a =
         a\<lparr>dialogs := dialogs a @
            [if strip (log_dir_var a) = []
             then ShowWarning ''Select directory'' ''Select organized directory to read logs from.''
             else ShowWarning ''No logs'' ''No log files found in the selected directory.'']\<rparr>
     \<and> live_logs_running (start_live_logs fs a) = live_logs_running a
     \<and> live_log_paths (start_live_logs fs a) = live_log_paths a
     \<and> tail_positions (start_live_logs fs a) = tail_positions a
     \<and> tail_timers (start_live_logs fs a) = tail_timers a"
    if "?paths = []"
    using start_live_logs_not_started [OF that] by simp
  have 3: "live_log_paths (foldl (\<lambda>b fs'. timer_fires fs' b) (start_live_logs fs a) fss) =
       live_log_paths (start_live_logs fs a)"
    by (rule paths_ticks)
  from 1 2 3 show ?thesis by blast
qed

theorem live_logs_fixed_names_witness:
  "(strip (log_dir_var (init_app\<lparr>log_dir_var := ''/out''\<rparr>)) \<noteq> []
     \<and> filter (isfile (Dir [(''out'', Dir [(''organizer.log'', File ''X'')])]))
          [path_join (strip (log_dir_var (init_app\<lparr>log_dir_var := ''/out''\<rparr>))) ''organizer.log'',
           path_join (strip (log_dir_var (init_app\<lparr>log_dir_var := ''/out''\<rparr>)))
             ''integrity_check.log''] \<noteq> [])
   \<and> live_log_paths
        (start_live_logs (Dir [(''out'', Dir [(''organizer.log'', File ''X'')])])
           (init_app\<lparr>log_dir_var := ''/out''\<rparr>)) = [''/out/organizer.log'']
   \<and> filter (isfile (Dir [(''out'', Dir [])]))
          [path_join (strip (log_dir_var (init_app\<lparr>log_dir_var := ''/out''\<rparr>))) ''organizer.log'',
           path_join (strip (log_dir_var (init_app\<lparr>log_dir_var := ''/out''\<rparr>)))
             ''integrity_check.log''] = []
   \<and> tail_timers (start_live_logs (Dir [(''out'', Dir [])]) (init_app\<lparr>log_dir_var := ''/out''\<rparr>)) =
       tail_timers (init_app\<lparr>log_dir_var := ''/out''\<rparr>)
   \<and> tail_positions
        (start_live_logs (Dir [(''out'', Dir [])]) (init_app\<lparr>log_dir_var := ''/out''\<rparr>)) =
       tail_positions (init_app\<lparr>log_dir_var := ''/out''\<rparr>)"
proof -
  let ?a = "init_app\<lparr>log_dir_var := ''/out''\<rparr>"
  let ?fs1 = "Dir [(''out'', Dir [(''organizer.log'', File ''X'')])]"
  let ?fs2 = "Dir [(''out'', Dir [])]"
  have h1: "strip (log_dir_var ?a) \<noteq> []
     \<and> filter (isfile ?fs1)
          [path_join (strip (log_dir_var ?a)) ''organizer.log'',
           path_join (strip (log_dir_var ?a)) ''integrity_check.log''] \<noteq> []"
    by code_simp
  have e: "filter (isfile ?fs1)
          [path_join (strip (log_dir_var ?a)) ''organizer.log'',
           path_join (strip (log_dir_var ?a)) ''integrity_check.log''] = [''/out/organizer.log'']"
    by code_simp
  have h2: "filter (isfile ?fs2)
          [path_join (strip (log_dir_var ?a)) ''organizer.log'',
           path_join (strip (log_dir_var ?a)) ''integrity_check.log''] = []"
    by code_simp
  from live_logs_fixed_names [where a = ?a and fs = ?fs1] h1
  have "live_log_paths (start_live_logs ?fs1 ?a) =
      filter (isfile ?fs1)
          [path_join (strip (log_dir_var ?a)) ''organizer.log'',
           path_join (strip (log_dir_var ?a)) ''integrity_check.log'']"
    by blast
  then have 1: "live_log_paths (start_live_logs ?fs1 ?a) = [''/out/organizer.log'']"
    by (simp only: e)
  from live_logs_fixed_names [where a = ?a and fs = ?fs2] h2
  have 2: "tail_timers (start_live_logs ?fs2 ?a) = tail_timers ?a
      \<and> tail_positions (start_live_logs ?fs2 ?a) = tail_positions ?a"
    by blast
  from h1 1 h2 2 show ?thesis by blast
qed

end
